theory Spec2Isabelle
  imports Main "HOL-Library.Multiset"
begin

section \<open>The lock core\<close>

text \<open>
  The model follows \<^verbatim>\<open>aiorwlock/__init__.py\<close>. A task is identified by the value that
  \<^verbatim>\<open>asyncio.Task.current_task\<close> returns; the identities are opaque, so natural numbers
  stand for them. Both errors of the module are a \<^verbatim>\<open>RuntimeError\<close> that carries a message.
\<close>

type_synonym task = nat

datatype error = RuntimeError string

definition UpgradeForbidden :: error where
  "UpgradeForbidden = RuntimeError ''cannot upgrade RWLock from read to write''"

definition NotHeld :: error where
  "NotHeld = RuntimeError ''cannot release an un-acquired lock''"

text \<open>
  \<^verbatim>\<open>_RWLockCore\<close>: \<open>state\<close> is \<^verbatim>\<open>_state\<close> (positive: shared count, negative: exclusive
  count), \<open>waiting\<close> is \<^verbatim>\<open>_waiting\<close> and \<open>owning\<close> is the list \<^verbatim>\<open>_owning\<close>. Python
  integers are unbounded, hence \<open>int\<close>.
\<close>

record RWLockCore =
  state :: int
  waiting :: int
  owning :: "task list"

definition RWLockCore_init :: RWLockCore where
  "RWLockCore_init = \<lparr>state = 0, waiting = 0, owning = []\<rparr>"

text \<open>
  \<^verbatim>\<open>_acquire_write\<close>, the predicate the exclusive acquisition waits for. It returns
  \<^verbatim>\<open>True\<close> after taking the lock, \<^verbatim>\<open>False\<close> when the caller has to wait, and raises
  when the caller holds the lock in shared mode.
\<close>

definition acquire_write_pred :: "task \<Rightarrow> RWLockCore \<Rightarrow> error + (bool \<times> RWLockCore)" where
  "acquire_write_pred me c =
     (if state c = 0 \<or> (state c < 0 \<and> me \<in> set (owning c))
      then Inr (True, c\<lparr>state := state c - 1, owning := owning c @ [me]\<rparr>)
      else if state c > 0 \<and> me \<in> set (owning c)
      then Inl UpgradeForbidden
      else Inr (False, c))"

text \<open>
  \<^verbatim>\<open>_acquire_read\<close>, the predicate the shared acquisition waits for. In write mode it
  defers to \<^verbatim>\<open>_acquire_write\<close>; otherwise \<^verbatim>\<open>not self._waiting\<close> is the test
  \<open>waiting c = 0\<close>.
\<close>

definition acquire_read_pred :: "task \<Rightarrow> RWLockCore \<Rightarrow> error + (bool \<times> RWLockCore)" where
  "acquire_read_pred me c =
     (if state c < 0 then acquire_write_pred me c
      else
        let ok = (if waiting c = 0 then True else me \<in> set (owning c))
        in if ok then Inr (True, c\<lparr>state := state c + 1, owning := owning c @ [me]\<rparr>)
           else Inr (False, c))"

text \<open>
  A coroutine of the core runs, inside the critical section of the condition, until it
  returns, raises, or parks in \<^verbatim>\<open>Condition.wait\<close>. \<^verbatim>\<open>wait_for\<close> evaluates the
  predicate once on entry and once after every wake, and parks while it is false.
\<close>

datatype outcome = Returned | Raised error | Parked

text \<open>
  \<^verbatim>\<open>acquire_read\<close>: one evaluation of the predicate under \<^verbatim>\<open>wait_for\<close>. The same
  function describes the first evaluation and the one after a wake.
\<close>

definition acquire_read :: "task \<Rightarrow> RWLockCore \<Rightarrow> outcome \<times> RWLockCore" where
  "acquire_read me c =
     (case acquire_read_pred me c of
        Inl e \<Rightarrow> (Raised e, c)
      | Inr (ok, c') \<Rightarrow> (if ok then Returned else Parked, c'))"

text \<open>
  The \<^verbatim>\<open>try\<close> block of \<^verbatim>\<open>acquire_write\<close>: one evaluation of the predicate, and the
  \<^verbatim>\<open>finally\<close> clause \<^verbatim>\<open>self._waiting -= 1\<close> when the block is left by a return or by
  an exception. While the task stays parked the block has not been left.
\<close>

definition wait_for_write :: "task \<Rightarrow> RWLockCore \<Rightarrow> outcome \<times> RWLockCore" where
  "wait_for_write me c =
     (case acquire_write_pred me c of
        Inl e \<Rightarrow> (Raised e, c\<lparr>waiting := waiting c - 1\<rparr>)
      | Inr (ok, c') \<Rightarrow>
          (if ok then (Returned, c'\<lparr>waiting := waiting c' - 1\<rparr>) else (Parked, c')))"

text \<open>\<^verbatim>\<open>acquire_write\<close> up to its first return, exception or park.\<close>

definition acquire_write :: "task \<Rightarrow> RWLockCore \<Rightarrow> outcome \<times> RWLockCore" where
  "acquire_write me c = wait_for_write me (c\<lparr>waiting := waiting c + 1\<rparr>)"

text \<open>
  \<^verbatim>\<open>release\<close>. \<^verbatim>\<open>list.remove\<close> deletes the first occurrence and raises
  \<^verbatim>\<open>ValueError\<close> when there is none. The boolean of the result tells whether
  \<^verbatim>\<open>notify_all\<close> was called.
\<close>

definition release :: "task \<Rightarrow> RWLockCore \<Rightarrow> error + (bool \<times> RWLockCore)" where
  "release me c =
     (if me \<notin> set (owning c) then Inl NotHeld
      else
        let c1 = c\<lparr>owning := remove1 me (owning c)\<rparr>;
            c2 = c1\<lparr>state := (if state c1 > 0 then state c1 - 1 else state c1 + 1)\<rparr>
        in Inr (state c2 = 0, c2))"

section \<open>The handles, the condition and the tasks\<close>

text \<open>
  \<^verbatim>\<open>_ReaderLock\<close> and \<^verbatim>\<open>_WriterLock\<close> share one core; each has its own flag
  \<^verbatim>\<open>_locked\<close>. \<^verbatim>\<open>_WriterLock\<close> inherits \<^verbatim>\<open>release\<close> from \<^verbatim>\<open>_ReaderLock\<close> and
  overrides \<^verbatim>\<open>acquire\<close>.
\<close>

datatype handle = ReaderLock | WriterLock

datatype operation = Acquire | Release

text \<open>
  A task parked in \<^verbatim>\<open>Condition.wait\<close>: the handle it went through, and whether
  \<^verbatim>\<open>notify_all\<close> has reached it since it parked.
\<close>

record waiter =
  wtask :: task
  whandle :: handle
  notified :: bool

record RWLock =
  core :: RWLockCore
  waiters :: "waiter list"
  reader_locked :: bool
  writer_locked :: bool

definition RWLock_init :: RWLock where
  "RWLock_init = \<lparr>core = RWLockCore_init, waiters = [],
     reader_locked = False, writer_locked = False\<rparr>"

definition set_locked :: "handle \<Rightarrow> bool \<Rightarrow> RWLock \<Rightarrow> RWLock" where
  "set_locked h b s =
     (case h of ReaderLock \<Rightarrow> s\<lparr>reader_locked := b\<rparr> | WriterLock \<Rightarrow> s\<lparr>writer_locked := b\<rparr>)"

definition is_waiting :: "task \<Rightarrow> RWLock \<Rightarrow> bool" where
  "is_waiting me s = (me \<in> set (map wtask (waiters s)))"

definition notify_all :: "waiter list \<Rightarrow> waiter list" where
  "notify_all ws = map (\<lambda>w. w\<lparr>notified := True\<rparr>) ws"

text \<open>
  The end of one run of an acquiring coroutine of task \<open>me\<close> through handle \<open>h\<close>: the
  task leaves the waiters it may have been in; when the core coroutine returned, the
  handle sets \<^verbatim>\<open>_locked\<close>; when it parks, the task joins the waiters, not notified.
\<close>

definition finish_acquire ::
  "task \<Rightarrow> handle \<Rightarrow> outcome \<times> RWLockCore \<Rightarrow> RWLock \<Rightarrow> outcome \<times> RWLock" where
  "finish_acquire me h r s =
     (let s1 = s\<lparr>core := snd r, waiters := filter (\<lambda>w. wtask w \<noteq> me) (waiters s)\<rparr>
      in case fst r of
           Returned \<Rightarrow> (Returned, set_locked h True s1)
         | Raised e \<Rightarrow> (Raised e, s1)
         | Parked \<Rightarrow>
             (Parked, s1\<lparr>waiters := waiters s1 @ [\<lparr>wtask = me, whandle = h, notified = False\<rparr>]\<rparr>))"

text \<open>
  The scheduler is cooperative: between two suspension points a task runs alone, so a
  step is either a call of a handle's operation by a task, run up to its return, exception
  or park, or the resumption of a notified waiter, which evaluates its predicate again.
  A task is sequential: while it is parked it calls nothing, and only a notified waiter
  resumes. A step that is not enabled is \<open>None\<close>.
\<close>

datatype event = Call task handle operation | Resume task

fun step :: "event \<Rightarrow> RWLock \<Rightarrow> (outcome \<times> RWLock) option" where
  "step (Call me h Acquire) s =
     (if is_waiting me s then None
      else Some (finish_acquire me h
        (case h of ReaderLock \<Rightarrow> acquire_read me (core s)
                 | WriterLock \<Rightarrow> acquire_write me (core s)) s))"
| "step (Call me h Release) s =
     (if is_waiting me s then None
      else Some (case release me (core s) of
          Inl e \<Rightarrow> (Raised e, s)
        | Inr (n, c') \<Rightarrow>
            (Returned, set_locked h False
               (s\<lparr>core := c', waiters := (if n then notify_all (waiters s) else waiters s)\<rparr>))))"
| "step (Resume me) s =
     (case find (\<lambda>w. wtask w = me \<and> notified w) (waiters s) of
        None \<Rightarrow> None
      | Some w \<Rightarrow> Some (finish_acquire me (whandle w)
          (case whandle w of ReaderLock \<Rightarrow> acquire_read me (core s)
                           | WriterLock \<Rightarrow> wait_for_write me (core s)) s))"

text \<open>A schedule is a list of events; it runs as long as every step is enabled.\<close>

fun run :: "event list \<Rightarrow> RWLock \<Rightarrow> RWLock option" where
  "run [] s = Some s"
| "run (e # es) s = (case step e s of None \<Rightarrow> None | Some (out, s') \<Rightarrow> run es s')"

text \<open>
  What holds in every state: the count matches the owners, write mode has one owning
  task, and a parked task owns nothing.
\<close>

definition core_inv :: "RWLockCore \<Rightarrow> bool" where
  "core_inv c \<longleftrightarrow>
     \<bar>state c\<bar> = int (length (owning c)) \<and>
     (state c < 0 \<longrightarrow> (\<forall>x \<in> set (owning c). \<forall>y \<in> set (owning c). x = y))"

definition lock_inv :: "RWLock \<Rightarrow> bool" where
  "lock_inv s \<longleftrightarrow>
     core_inv (core s) \<and>
     (\<forall>w \<in> set (waiters s). wtask w \<notin> set (owning (core s)))"

section \<open>Invariants of the core\<close>

lemma core_inv_init: "core_inv RWLockCore_init"
  by (simp add: core_inv_def RWLockCore_init_def)

lemma acquire_write_pred_inv:
  assumes "core_inv c" and "acquire_write_pred me c = Inr (ok, c')"
  shows "core_inv c'"
proof (cases "state c = 0")
  case True
  with assms(1) have "owning c = []" by (simp add: core_inv_def)
  with True assms show ?thesis
    by (auto simp: core_inv_def acquire_write_pred_def)
next
  case False
  show ?thesis
  proof (cases "state c < 0 \<and> me \<in> set (owning c)")
    case True
    with assms(2) have c': "c' = c\<lparr>state := state c - 1, owning := owning c @ [me]\<rparr>"
      by (simp add: acquire_write_pred_def)
    from True assms(1) have "\<forall>x \<in> set (owning c). x = me"
      by (simp add: core_inv_def)
    with True assms(1) show ?thesis unfolding c'
      by (simp add: core_inv_def)
  next
    case F2: False
    with False assms(2) have "c' = c"
      by (auto simp: acquire_write_pred_def split: if_splits)
    with assms(1) show ?thesis by simp
  qed
qed

lemma acquire_read_pred_inv:
  assumes "core_inv c" and "acquire_read_pred me c = Inr (ok, c')"
  shows "core_inv c'"
proof (cases "state c < 0")
  case True
  with assms show ?thesis
    by (simp add: acquire_read_pred_def acquire_write_pred_inv)
next
  case False
  show ?thesis
  proof (cases ok)
    case True
    with False assms(2) have c': "c' = c\<lparr>state := state c + 1, owning := owning c @ [me]\<rparr>"
      by (auto simp: acquire_read_pred_def Let_def split: if_splits)
    from False assms(1) show ?thesis unfolding c'
      by (simp add: core_inv_def)
  next
    case F2: False
    with False assms(2) have "c' = c"
      by (auto simp: acquire_read_pred_def Let_def split: if_splits)
    with assms(1) show ?thesis by simp
  qed
qed

lemma length_remove1_mem: "x \<in> set xs \<Longrightarrow> Suc (length (remove1 x xs)) = length xs"
  by (induction xs) auto

lemma release_inv:
  assumes "core_inv c" and "release me c = Inr (n, c')"
  shows "core_inv c'"
proof -
  from assms(2) have mem: "me \<in> set (owning c)"
    by (auto simp: release_def split: if_splits)
  then have pos: "0 < length (owning c)" by (cases "owning c") auto
  from length_remove1_mem [OF mem]
  have len: "int (length (remove1 me (owning c))) = int (length (owning c)) - 1"
    by linarith
  have sub: "set (remove1 me (owning c)) \<subseteq> set (owning c)"
    by (rule set_remove1_subset)
  from pos assms(1) have nz: "state c \<noteq> 0"
    by (auto simp: core_inv_def)
  from assms(2) mem have c': "c' = c\<lparr>owning := remove1 me (owning c),
      state := (if state c > 0 then state c - 1 else state c + 1)\<rparr>"
    by (simp add: release_def Let_def cong: if_cong)
  show ?thesis
  proof (cases "state c > 0")
    case True
    with c' assms(1) len show ?thesis by (simp add: core_inv_def)
  next
    case False
    with nz have neg: "state c < 0" by simp
    from neg c' have c'': "c' = c\<lparr>owning := remove1 me (owning c), state := state c + 1\<rparr>" by simp
    from assms(1) neg have a: "- state c = int (length (owning c))"
      and b: "\<forall>x \<in> set (owning c). \<forall>y \<in> set (owning c). x = y"
      by (auto simp: core_inv_def)
    from a len neg have "\<bar>state c + 1\<bar> = int (length (remove1 me (owning c)))" by simp
    moreover from b sub have "\<forall>x \<in> set (remove1 me (owning c)). \<forall>y \<in> set (remove1 me (owning c)). x = y"
      by blast
    ultimately show ?thesis unfolding c'' by (simp add: core_inv_def)
  qed
qed

section \<open>One run of a coroutine\<close>

lemma acquire_read_pred_no_raise: "acquire_read_pred me c \<noteq> Inl e"
  by (simp add: acquire_read_pred_def acquire_write_pred_def Let_def)

lemma acquire_write_pred_owning:
  assumes "acquire_write_pred me c = Inr (ok, c')"
  shows "set (owning c') \<subseteq> insert me (set (owning c))"
    and "\<not> ok \<Longrightarrow> c' = c \<and> me \<notin> set (owning c)"
  using assms by (auto simp: acquire_write_pred_def split: if_splits)

lemma acquire_read_pred_owning:
  assumes "acquire_read_pred me c = Inr (ok, c')"
  shows "set (owning c') \<subseteq> insert me (set (owning c))"
    and "\<not> ok \<Longrightarrow> c' = c \<and> me \<notin> set (owning c)"
  using assms
  by (auto simp: acquire_read_pred_def acquire_write_pred_def Let_def split: if_splits)

lemma acquire_read_step:
  assumes "acquire_read me c = (out, c')"
  shows "(core_inv c \<longrightarrow> core_inv c') \<and> set (owning c') \<subseteq> insert me (set (owning c)) \<and>
         (out = Parked \<longrightarrow> c' = c \<and> me \<notin> set (owning c))"
proof (cases "acquire_read_pred me c")
  case (Inl e)
  then show ?thesis by (simp add: acquire_read_pred_no_raise)
next
  case (Inr r)
  obtain ok c1 where r: "r = (ok, c1)" by (cases r)
  with Inr assms have c': "c' = c1" and out: "out = (if ok then Returned else Parked)"
    by (auto simp: acquire_read_def)
  from Inr r have p: "acquire_read_pred me c = Inr (ok, c')" by (simp add: c')
  show ?thesis
    using acquire_read_pred_inv [OF _ p] acquire_read_pred_owning [OF p] out
    by auto
qed

lemma wait_for_write_step:
  assumes "wait_for_write me c = (out, c')"
  shows "(core_inv c \<longrightarrow> core_inv c') \<and> set (owning c') \<subseteq> insert me (set (owning c)) \<and>
         (out = Parked \<longrightarrow> c' = c \<and> me \<notin> set (owning c))"
proof (cases "acquire_write_pred me c")
  case (Inl e)
  with assms have "c' = c\<lparr>waiting := waiting c - 1\<rparr>" and "out = Raised e"
    by (auto simp: wait_for_write_def)
  then show ?thesis by (auto simp: core_inv_def)
next
  case (Inr r)
  obtain ok c1 where r: "r = (ok, c1)" by (cases r)
  from Inr r have p: "acquire_write_pred me c = Inr (ok, c1)" by simp
  from Inr r assms have c': "c' = (if ok then c1\<lparr>waiting := waiting c1 - 1\<rparr> else c1)"
    and out: "out = (if ok then Returned else Parked)"
    by (auto simp: wait_for_write_def split: if_splits)
  have "core_inv c \<Longrightarrow> core_inv c1" using acquire_write_pred_inv [OF _ p] .
  then have "core_inv c \<Longrightarrow> core_inv c'" using c' by (auto simp: core_inv_def)
  then show ?thesis
    using acquire_write_pred_owning [OF p] out c'
    by auto
qed

lemma acquire_write_step:
  assumes "acquire_write me c = (out, c')"
  shows "(core_inv c \<longrightarrow> core_inv c') \<and> set (owning c') \<subseteq> insert me (set (owning c)) \<and>
         (out = Parked \<longrightarrow> c' = c\<lparr>waiting := waiting c + 1\<rparr> \<and> me \<notin> set (owning c))"
  using wait_for_write_step [of me "c\<lparr>waiting := waiting c + 1\<rparr>" out c'] assms
  by (auto simp: acquire_write_def core_inv_def)

lemma release_owning:
  assumes "release me c = Inr (n, c')"
  shows "set (owning c') \<subseteq> set (owning c)"
proof -
  from assms have "owning c' = remove1 me (owning c)"
    by (auto simp: release_def Let_def split: if_splits)
  then show ?thesis by (simp add: set_remove1_subset)
qed

section \<open>Invariants of the lock\<close>

lemma lock_inv_init: "lock_inv RWLock_init"
  using core_inv_init by (simp add: lock_inv_def RWLock_init_def)

lemma set_locked_fields [simp]:
  "core (set_locked h b s) = core s" "waiters (set_locked h b s) = waiters s"
  by (cases h; simp add: set_locked_def)+

lemma finish_acquire_inv:
  assumes inv: "lock_inv s"
    and r: "core_inv (core s) \<longrightarrow> core_inv c'"
           "set (owning c') \<subseteq> insert me (set (owning (core s)))"
           "out = Parked \<longrightarrow> me \<notin> set (owning c')"
    and fin: "finish_acquire me h (out, c') s = (out', s')"
  shows "lock_inv s'"
proof -
  let ?rest = "filter (\<lambda>w. wtask w \<noteq> me) (waiters s)"
  have rest: "\<forall>w \<in> set ?rest. wtask w \<notin> set (owning c')"
    using inv r(2) by (auto simp: lock_inv_def)
  from inv r(1) have ci: "core_inv c'" by (simp add: lock_inv_def)
  show ?thesis
  proof (cases out)
    case Returned
    with fin have "core s' = c'" "waiters s' = ?rest"
      by (auto simp: finish_acquire_def Let_def)
    with ci rest show ?thesis by (simp add: lock_inv_def)
  next
    case (Raised e)
    with fin have "core s' = c'" "waiters s' = ?rest"
      by (auto simp: finish_acquire_def Let_def)
    with ci rest show ?thesis by (simp add: lock_inv_def)
  next
    case Parked
    with fin have "core s' = c'"
      "waiters s' = ?rest @ [\<lparr>wtask = me, whandle = h, notified = False\<rparr>]"
      by (auto simp: finish_acquire_def Let_def)
    with ci rest r(3) Parked show ?thesis by (simp add: lock_inv_def)
  qed
qed

lemma step_inv:
  assumes inv: "lock_inv s" and st: "step ev s = Some (out, s')"
  shows "lock_inv s'"
proof (cases ev)
  case (Call me h m)
  show ?thesis
  proof (cases m)
    case Acquire
    show ?thesis
    proof (cases h)
      case ReaderLock
      obtain o1 c1 where a: "acquire_read me (core s) = (o1, c1)" by (cases "acquire_read me (core s)")
      from st Call Acquire ReaderLock a
      have fin: "finish_acquire me h (o1, c1) s = (out, s')"
        by (simp split: if_splits)
      from acquire_read_step [OF a] show ?thesis
        by (intro finish_acquire_inv [OF inv _ _ _ fin]) auto
    next
      case WriterLock
      obtain o1 c1 where a: "acquire_write me (core s) = (o1, c1)" by (cases "acquire_write me (core s)")
      from st Call Acquire WriterLock a
      have fin: "finish_acquire me h (o1, c1) s = (out, s')"
        by (simp split: if_splits)
      from acquire_write_step [OF a] show ?thesis
        by (intro finish_acquire_inv [OF inv _ _ _ fin]) auto
    qed
  next
    case Release
    show ?thesis
    proof (cases "release me (core s)")
      case (Inl e)
      with st Call Release have "s' = s" by (simp split: if_splits)
      with inv show ?thesis by simp
    next
      case (Inr r)
      obtain n c1 where r: "r = (n, c1)" by (cases r)
      from Inr r have rel: "release me (core s) = Inr (n, c1)" by simp
      from st Call Release rel have "core s' = c1"
        and w: "waiters s' = (if n then notify_all (waiters s) else waiters s)"
        by (auto split: if_splits)
      moreover from inv release_inv [OF _ rel] have "core_inv c1" by (simp add: lock_inv_def)
      moreover have "\<forall>w \<in> set (waiters s'). wtask w \<in> wtask ` set (waiters s)"
        using w by (auto simp: notify_all_def)
      moreover from inv have "\<forall>t \<in> wtask ` set (waiters s). t \<notin> set (owning (core s))"
        by (auto simp: lock_inv_def)
      ultimately show ?thesis
        using release_owning [OF rel] unfolding lock_inv_def by blast
    qed
  qed
next
  case (Resume me)
  with st obtain w where f: "find (\<lambda>w. wtask w = me \<and> notified w) (waiters s) = Some w"
    by (auto split: option.splits)
  show ?thesis
  proof (cases "whandle w")
    case ReaderLock
    obtain o1 c1 where a: "acquire_read me (core s) = (o1, c1)" by (cases "acquire_read me (core s)")
    from st Resume f ReaderLock a
    have fin: "finish_acquire me (whandle w) (o1, c1) s = (out, s')" by simp
    from acquire_read_step [OF a] show ?thesis
      by (intro finish_acquire_inv [OF inv _ _ _ fin]) auto
  next
    case WriterLock
    obtain o1 c1 where a: "wait_for_write me (core s) = (o1, c1)" by (cases "wait_for_write me (core s)")
    from st Resume f WriterLock a
    have fin: "finish_acquire me (whandle w) (o1, c1) s = (out, s')" by simp
    from wait_for_write_step [OF a] show ?thesis
      by (intro finish_acquire_inv [OF inv _ _ _ fin]) auto
  qed
qed

lemma run_inv:
  assumes "lock_inv s" and "run evs s = Some s'"
  shows "lock_inv s'"
  using assms
proof (induction evs arbitrary: s)
  case Nil
  then show ?case by simp
next
  case (Cons e es)
  from Cons.prems(2) obtain out s1 where st: "step e s = Some (out, s1)" and r: "run es s1 = Some s'"
    by (auto split: option.splits)
  from step_inv [OF Cons.prems(1) st] r show ?case by (rule Cons.IH)
qed

section \<open>Mutual exclusion and counting\<close>

lemmas run_defs = RWLock_init_def RWLockCore_init_def is_waiting_def finish_acquire_def
  acquire_read_def acquire_read_pred_def acquire_write_def wait_for_write_def
  acquire_write_pred_def release_def set_locked_def notify_all_def Let_def

lemma reachable_inv:
  assumes "run evs RWLock_init = Some s"
  shows "lock_inv s"
  using lock_inv_init assms by (rule run_inv)

text \<open>
  C1. In every state reached from the initial lock by a schedule of calls and
  resumptions, when \<open>state\<close> is negative the list \<open>owning\<close> holds one task only:
  every entry is that task.
\<close>

theorem exclusive_single_owner:
  assumes "run evs RWLock_init = Some s" and "state (core s) < 0"
  shows "\<exists>T. set (owning (core s)) = {T} \<and> (\<forall>x \<in> set (owning (core s)). x = T)
           \<and> card (set (owning (core s))) \<le> 1"
proof -
  from reachable_inv [OF assms(1)] have ci: "core_inv (core s)"
    by (simp add: lock_inv_def)
  with assms(2) have len: "0 < length (owning (core s))"
    and eq: "\<forall>x \<in> set (owning (core s)). \<forall>y \<in> set (owning (core s)). x = y"
    by (auto simp: core_inv_def)
  from len obtain T where T: "T \<in> set (owning (core s))"
    by (cases "owning (core s)") auto
  with eq have "set (owning (core s)) = {T}" by blast
  then show ?thesis by auto
qed

theorem exclusive_single_owner_witness:
  "run [Call 0 WriterLock Acquire, Call 1 WriterLock Acquire, Call 0 ReaderLock Acquire,
        Call 2 ReaderLock Acquire] RWLock_init =
     Some \<lparr>core = \<lparr>state = - 2, waiting = 1, owning = [0, 0]\<rparr>,
           waiters = [\<lparr>wtask = 1, whandle = WriterLock, notified = False\<rparr>,
                      \<lparr>wtask = 2, whandle = ReaderLock, notified = False\<rparr>],
           reader_locked = True, writer_locked = True\<rparr>
   \<and> (\<exists>T. set [0, 0 :: nat] = {T} \<and> (\<forall>x \<in> set [0, 0 :: nat]. x = T) \<and> card (set [0, 0 :: nat]) \<le> 1)"
proof -
  have r: "run [Call 0 WriterLock Acquire, Call 1 WriterLock Acquire, Call 0 ReaderLock Acquire,
        Call 2 ReaderLock Acquire] RWLock_init =
     Some \<lparr>core = \<lparr>state = - 2, waiting = 1, owning = [0, 0]\<rparr>,
           waiters = [\<lparr>wtask = 1, whandle = WriterLock, notified = False\<rparr>,
                      \<lparr>wtask = 2, whandle = ReaderLock, notified = False\<rparr>],
           reader_locked = True, writer_locked = True\<rparr>"
    by (simp add: run_defs)
  from exclusive_single_owner [OF r] r show ?thesis by simp
qed

text \<open>
  C2. In every state reached from the initial lock by a schedule of calls, failed or
  not, and resumptions, the absolute value of \<open>state\<close> is the length of \<open>owning\<close>; so
  when \<open>state\<close> is zero the list is empty.
\<close>

theorem counting_invariant:
  assumes "run evs RWLock_init = Some s"
  shows "\<bar>state (core s)\<bar> = int (length (owning (core s))) \<and>
         (state (core s) = 0 \<longrightarrow> owning (core s) = [])"
  using reachable_inv [OF assms] by (auto simp: lock_inv_def core_inv_def)

theorem counting_invariant_witness:
  "run [Call 0 ReaderLock Acquire, Call 1 ReaderLock Acquire, Call 2 WriterLock Acquire,
        Call 3 ReaderLock Release, Call 0 WriterLock Acquire, Call 0 WriterLock Release]
       RWLock_init =
     Some \<lparr>core = \<lparr>state = 1, waiting = 1, owning = [1]\<rparr>,
           waiters = [\<lparr>wtask = 2, whandle = WriterLock, notified = False\<rparr>],
           reader_locked = True, writer_locked = False\<rparr>
   \<and> \<bar>1 :: int\<bar> = int (length [1 :: nat])"
proof -
  have r: "run [Call 0 ReaderLock Acquire, Call 1 ReaderLock Acquire, Call 2 WriterLock Acquire,
        Call 3 ReaderLock Release, Call 0 WriterLock Acquire, Call 0 WriterLock Release]
       RWLock_init =
     Some \<lparr>core = \<lparr>state = 1, waiting = 1, owning = [1]\<rparr>,
           waiters = [\<lparr>wtask = 2, whandle = WriterLock, notified = False\<rparr>],
           reader_locked = True, writer_locked = False\<rparr>"
    by (simp add: run_defs)
  from counting_invariant [OF r] r show ?thesis by simp
qed

section \<open>Errors\<close>

lemma acquire_write_cases:
  "acquire_write me c =
     (if state c = 0 \<or> (state c < 0 \<and> me \<in> set (owning c))
      then (Returned, c\<lparr>state := state c - 1, owning := owning c @ [me]\<rparr>)
      else if 0 < state c \<and> me \<in> set (owning c) then (Raised UpgradeForbidden, c)
      else (Parked, c\<lparr>waiting := waiting c + 1\<rparr>))"
  by (simp add: acquire_write_def wait_for_write_def acquire_write_pred_def)

lemma wait_for_write_cases:
  "wait_for_write me c =
     (if state c = 0 \<or> (state c < 0 \<and> me \<in> set (owning c))
      then (Returned, c\<lparr>state := state c - 1, owning := owning c @ [me], waiting := waiting c - 1\<rparr>)
      else if 0 < state c \<and> me \<in> set (owning c)
      then (Raised UpgradeForbidden, c\<lparr>waiting := waiting c - 1\<rparr>)
      else (Parked, c))"
  by (simp add: wait_for_write_def acquire_write_pred_def)

lemma acquire_read_cases:
  "acquire_read me c =
     (if state c < 0
      then (if me \<in> set (owning c)
            then (Returned, c\<lparr>state := state c - 1, owning := owning c @ [me]\<rparr>)
            else (Parked, c))
      else if waiting c = 0 \<or> me \<in> set (owning c)
      then (Returned, c\<lparr>state := state c + 1, owning := owning c @ [me]\<rparr>)
      else (Parked, c))"
  by (simp add: acquire_read_def acquire_read_pred_def acquire_write_pred_def)

lemma release_cases:
  "release me c =
     (if me \<in> set (owning c)
      then Inr ((if 0 < state c then state c - 1 else state c + 1) = 0,
                c\<lparr>owning := remove1 me (owning c),
                  state := (if 0 < state c then state c - 1 else state c + 1)\<rparr>)
      else Inl NotHeld)"
  by (simp add: release_def Let_def cong: if_cong)

lemma not_waiting_filter:
  assumes "\<not> is_waiting me s"
  shows "filter (\<lambda>w. wtask w \<noteq> me) (waiters s) = waiters s"
  using assms by (auto simp: is_waiting_def filter_id_conv)

lemma finish_acquire_call:
  assumes "\<not> is_waiting me s"
  shows "finish_acquire me h (out, c') s =
     (case out of
        Returned \<Rightarrow> (Returned, set_locked h True (s\<lparr>core := c'\<rparr>))
      | Raised e \<Rightarrow> (Raised e, s\<lparr>core := c'\<rparr>)
      | Parked \<Rightarrow> (Parked, s\<lparr>core := c',
           waiters := waiters s @ [\<lparr>wtask = me, whandle = h, notified = False\<rparr>]\<rparr>))"
  by (cases out) (simp_all add: finish_acquire_def Let_def not_waiting_filter [OF assms])

lemma finish_acquire_outcome: "fst (finish_acquire me h r s) = fst r"
  by (cases "fst r") (simp_all add: finish_acquire_def Let_def)

lemma resume_waiter:
  assumes "step (Resume me) s = Some (out, s')"
  obtains w where "w \<in> set (waiters s)" and "wtask w = me" and "notified w"
    and "out = fst (case whandle w of ReaderLock \<Rightarrow> acquire_read me (core s)
                                      | WriterLock \<Rightarrow> wait_for_write me (core s))"
proof -
  from assms obtain w where f: "find (\<lambda>w. wtask w = me \<and> notified w) (waiters s) = Some w"
    by (auto split: option.splits)
  then have "w \<in> set (waiters s)" "wtask w = me" "notified w"
    by (auto simp: find_Some_iff)
  moreover from assms f have "out = fst (finish_acquire me (whandle w)
      (case whandle w of ReaderLock \<Rightarrow> acquire_read me (core s)
                       | WriterLock \<Rightarrow> wait_for_write me (core s)) s)"
    by (simp add: fst_def split: prod.splits)
  ultimately show ?thesis using that by (simp add: finish_acquire_outcome)
qed

text \<open>
  C3. A call of the exclusive acquisition raises exactly when the caller holds the lock
  in shared mode (\<open>state\<close> positive and the caller in \<open>owning\<close>); the error is the
  upgrade error and the whole lock, \<open>waiting\<close> included, is as before the call. In a
  reachable state no resumption of a parked task raises: the rejection never comes
  after a wait.
\<close>

theorem upgrade_rejection:
  assumes "\<not> is_waiting me t" and "run evs RWLock_init = Some s"
  shows "(\<exists>out t'. step (Call me WriterLock Acquire) t = Some (out, t') \<and>
            ((\<exists>e. out = Raised e) \<longleftrightarrow> 0 < state (core t) \<and> me \<in> set (owning (core t))) \<and>
            (\<forall>e. out = Raised e \<longrightarrow> e = UpgradeForbidden \<and> t' = t))
       \<and> (\<forall>T out s'. step (Resume T) s = Some (out, s') \<longrightarrow> (\<forall>e. out \<noteq> Raised e))"
proof (intro conjI allI impI)
  show "\<exists>out t'. step (Call me WriterLock Acquire) t = Some (out, t') \<and>
            ((\<exists>e. out = Raised e) \<longleftrightarrow> 0 < state (core t) \<and> me \<in> set (owning (core t))) \<and>
            (\<forall>e. out = Raised e \<longrightarrow> e = UpgradeForbidden \<and> t' = t)"
    using assms(1)
    by (simp add: finish_acquire_call acquire_write_cases)
next
  fix T out s' e
  assume st: "step (Resume T) s = Some (out, s')"
  from reachable_inv [OF assms(2)]
  have par: "\<forall>w \<in> set (waiters s). wtask w \<notin> set (owning (core s))"
    by (simp add: lock_inv_def)
  from st obtain w where w: "w \<in> set (waiters s)" "wtask w = T"
    and out: "out = fst (case whandle w of ReaderLock \<Rightarrow> acquire_read T (core s)
                                      | WriterLock \<Rightarrow> wait_for_write T (core s))"
    by (rule resume_waiter)
  from par w have "T \<notin> set (owning (core s))" by auto
  with out show "out \<noteq> Raised e"
    by (cases "whandle w") (simp_all add: acquire_read_cases wait_for_write_cases)
qed


theorem upgrade_rejection_witness:
  "\<not> is_waiting 0 \<lparr>core = \<lparr>state = 1, waiting = 0, owning = [0]\<rparr>, waiters = [],
        reader_locked = True, writer_locked = False\<rparr>
   \<and> run [Call 0 ReaderLock Acquire, Call 1 WriterLock Acquire, Call 0 ReaderLock Release]
        RWLock_init =
      Some \<lparr>core = \<lparr>state = 0, waiting = 1, owning = []\<rparr>,
            waiters = [\<lparr>wtask = 1, whandle = WriterLock, notified = True\<rparr>],
            reader_locked = False, writer_locked = False\<rparr>
   \<and> (\<exists>out t'. step (Call 0 WriterLock Acquire)
        \<lparr>core = \<lparr>state = 1, waiting = 0, owning = [0]\<rparr>, waiters = [],
          reader_locked = True, writer_locked = False\<rparr> = Some (out, t') \<and>
        out = Raised UpgradeForbidden \<and>
        t' = \<lparr>core = \<lparr>state = 1, waiting = 0, owning = [0]\<rparr>, waiters = [],
          reader_locked = True, writer_locked = False\<rparr>)
   \<and> step (Resume 1)
        \<lparr>core = \<lparr>state = 0, waiting = 1, owning = []\<rparr>,
          waiters = [\<lparr>wtask = 1, whandle = WriterLock, notified = True\<rparr>],
          reader_locked = False, writer_locked = False\<rparr> =
      Some (Returned,
        \<lparr>core = \<lparr>state = - 1, waiting = 0, owning = [1]\<rparr>, waiters = [],
          reader_locked = False, writer_locked = True\<rparr>)
   \<and> Returned \<noteq> Raised UpgradeForbidden"
  (is "?nw \<and> ?r \<and> ?c1 \<and> ?c2 \<and> ?c3")
proof -
  have nw: ?nw by (simp add: run_defs)
  have r: ?r by (simp add: run_defs)
  have c2: ?c2 by (simp add: run_defs)
  note inst = upgrade_rejection [OF nw r]
  from inst have c1: ?c1 by auto
  from inst c2 have c3: ?c3 by blast
  show ?thesis by (intro conjI nw r c1 c2 c3)
qed

text \<open>
  C4. A call of \<open>release\<close> raises exactly when the caller does not occur in
  \<open>owning\<close>; the error is the one of an un-acquired lock and the whole lock is as
  before the call. When the caller occurs in \<open>owning\<close> the call returns and
  \<open>owning\<close> loses the first occurrence of the caller, one occurrence and no more.
\<close>

theorem release_not_held:
  assumes "\<not> is_waiting me s"
  shows "\<exists>out s'. step (Call me h Release) s = Some (out, s') \<and>
     ((\<exists>e. out = Raised e) \<longleftrightarrow> me \<notin> set (owning (core s))) \<and>
     (\<forall>e. out = Raised e \<longrightarrow> e = NotHeld \<and> s' = s) \<and>
     (me \<in> set (owning (core s)) \<longrightarrow>
        out = Returned \<and> owning (core s') = remove1 me (owning (core s)) \<and>
        add_mset me (mset (owning (core s'))) = mset (owning (core s)))"
  using assms by (simp add: release_cases)

theorem release_not_held_witness:
  "\<not> is_waiting 0 \<lparr>core = \<lparr>state = 3, waiting = 0, owning = [0, 1, 0]\<rparr>, waiters = [],
        reader_locked = True, writer_locked = False\<rparr>
   \<and> step (Call 0 WriterLock Release)
        \<lparr>core = \<lparr>state = 3, waiting = 0, owning = [0, 1, 0]\<rparr>, waiters = [],
          reader_locked = True, writer_locked = False\<rparr> =
      Some (Returned,
        \<lparr>core = \<lparr>state = 2, waiting = 0, owning = [1, 0]\<rparr>, waiters = [],
          reader_locked = True, writer_locked = False\<rparr>)
   \<and> step (Call 2 ReaderLock Release)
        \<lparr>core = \<lparr>state = 3, waiting = 0, owning = [0, 1, 0]\<rparr>, waiters = [],
          reader_locked = True, writer_locked = False\<rparr> =
      Some (Raised NotHeld,
        \<lparr>core = \<lparr>state = 3, waiting = 0, owning = [0, 1, 0]\<rparr>, waiters = [],
          reader_locked = True, writer_locked = False\<rparr>)
   \<and> (\<exists>out s'. step (Call 0 WriterLock Release)
        \<lparr>core = \<lparr>state = 3, waiting = 0, owning = [0, 1, 0]\<rparr>, waiters = [],
          reader_locked = True, writer_locked = False\<rparr> = Some (out, s') \<and>
        out = Returned \<and> owning (core s') = remove1 0 [0, 1, 0] \<and>
        add_mset 0 (mset (owning (core s'))) = mset [0, 1, 0])"
  (is "?nw \<and> ?c1 \<and> ?c2 \<and> ?c3")
proof -
  have nw: ?nw by (simp add: run_defs)
  have c1: ?c1 by (simp add: run_defs)
  have c2: ?c2 by (simp add: run_defs)
  from release_not_held [OF nw, of WriterLock] have c3: ?c3 by auto
  show ?thesis by (intro conjI nw c1 c2 c3)
qed

section \<open>Writer preference and the shared acquisition\<close>

lemma finish_acquire_core: "core (snd (finish_acquire me h r s)) = snd r"
  by (cases "fst r") (simp_all add: finish_acquire_def Let_def)

lemma step_core_cases:
  assumes "step ev s = Some (out, s')"
  obtains (rd) me where "core s' = snd (acquire_read me (core s))"
    | (wr) me where "core s' = snd (acquire_write me (core s))"
    | (wk) me where "core s' = snd (wait_for_write me (core s))"
    | (rl) me n where "release me (core s) = Inr (n, core s')"
    | (unch) "core s' = core s"
proof (cases ev)
  case (Call me h m)
  show ?thesis
  proof (cases m)
    case Acquire
    with Call assms have "s' = snd (finish_acquire me h
        (case h of ReaderLock \<Rightarrow> acquire_read me (core s)
                 | WriterLock \<Rightarrow> acquire_write me (core s)) s)"
      by (auto split: if_splits)
    then have "core s' = snd (case h of ReaderLock \<Rightarrow> acquire_read me (core s)
                 | WriterLock \<Rightarrow> acquire_write me (core s))"
      by (simp add: finish_acquire_core)
    then show ?thesis using rd wr by (cases h) auto
  next
    case Release
    show ?thesis
    proof (cases "release me (core s)")
      case (Inl e)
      with Call Release assms have "s' = s" by (auto split: if_splits)
      then show ?thesis using unch by simp
    next
      case (Inr r)
      with Call Release assms have "release me (core s) = Inr (fst r, core s')"
        by (cases r) (auto split: if_splits)
      then show ?thesis by (rule rl)
    qed
  qed
next
  case (Resume me)
  with assms obtain w :: waiter where "finish_acquire me (whandle w)
      (case whandle w of ReaderLock \<Rightarrow> acquire_read me (core s)
                       | WriterLock \<Rightarrow> wait_for_write me (core s)) s = (out, s')"
    by (auto split: option.splits)
  then have "s' = snd (finish_acquire me (whandle w)
      (case whandle w of ReaderLock \<Rightarrow> acquire_read me (core s)
                       | WriterLock \<Rightarrow> wait_for_write me (core s)) s)"
    by simp
  then have "core s' = snd (case whandle w of ReaderLock \<Rightarrow> acquire_read me (core s)
                       | WriterLock \<Rightarrow> wait_for_write me (core s))"
    by (simp add: finish_acquire_core)
  then show ?thesis using rd wk by (cases "whandle w") auto
qed

text \<open>
  C5. From a state where \<open>waiting\<close> is positive, no step makes a task that is not in
  \<open>owning\<close> an owner in shared mode, and the shared acquisition of such a task parks
  with the core unchanged, on the call and after every wake. A task that is in
  \<open>owning\<close> in shared mode gets its shared acquisition at once, whatever \<open>waiting\<close> is.
\<close>

theorem writer_preference:
  assumes "step ev s = Some (out, s')" and "0 < waiting (core s)"
    and "T \<notin> set (owning (core s))"
    and "0 < state c" and "me \<in> set (owning c)"
  shows "\<not> (0 < state (core s') \<and> T \<in> set (owning (core s')))
       \<and> acquire_read T (core s) = (Parked, core s)
       \<and> acquire_read me c = (Returned, c\<lparr>state := state c + 1, owning := owning c @ [me]\<rparr>)"
proof (intro conjI)
  from assms(1) show "\<not> (0 < state (core s') \<and> T \<in> set (owning (core s')))"
  proof (cases rule: step_core_cases)
    case (rd me)
    with assms(2,3) show ?thesis by (auto simp: acquire_read_cases split: if_splits)
  next
    case (wr me)
    with assms(2,3) show ?thesis by (auto simp: acquire_write_cases split: if_splits)
  next
    case (wk me)
    with assms(2,3) show ?thesis by (auto simp: wait_for_write_cases split: if_splits)
  next
    case (rl me n)
    from release_owning [OF rl] assms(3) show ?thesis by auto
  next
    case unch
    with assms(3) show ?thesis by simp
  qed
next
  from assms(2,3) show "acquire_read T (core s) = (Parked, core s)"
    by (simp add: acquire_read_cases)
next
  from assms(4,5) show "acquire_read me c =
      (Returned, c\<lparr>state := state c + 1, owning := owning c @ [me]\<rparr>)"
    by (simp add: acquire_read_cases)
qed


theorem writer_preference_witness:
  "step (Call 2 ReaderLock Acquire)
     \<lparr>core = \<lparr>state = 1, waiting = 1, owning = [0]\<rparr>,
       waiters = [\<lparr>wtask = 1, whandle = WriterLock, notified = False\<rparr>],
       reader_locked = True, writer_locked = False\<rparr> =
   Some (Parked,
     \<lparr>core = \<lparr>state = 1, waiting = 1, owning = [0]\<rparr>,
       waiters = [\<lparr>wtask = 1, whandle = WriterLock, notified = False\<rparr>,
                  \<lparr>wtask = 2, whandle = ReaderLock, notified = False\<rparr>],
       reader_locked = True, writer_locked = False\<rparr>)
   \<and> (0 :: int) < 1 \<and> (2 :: nat) \<notin> set [0] \<and> (0 :: nat) \<in> set [0]
   \<and> acquire_read 2 \<lparr>state = 1, waiting = 1, owning = [0]\<rparr> =
       (Parked, \<lparr>state = 1, waiting = 1, owning = [0]\<rparr>)
   \<and> acquire_read 0 \<lparr>state = 1, waiting = 1, owning = [0]\<rparr> =
       (Returned, \<lparr>state = 2, waiting = 1, owning = [0, 0]\<rparr>)"
  (is "?st \<and> ?h1 \<and> ?h2 \<and> ?h3 \<and> ?c1 \<and> ?c2")
proof -
  have st: ?st by (simp add: run_defs)
  have h1: ?h1 by simp
  have h2: ?h2 by simp
  have h3: ?h3 by simp
  note inst = writer_preference [OF st, of 2 "\<lparr>state = 1, waiting = 1, owning = [0]\<rparr>" 0]
  from inst have c1: ?c1 by simp
  from inst have c2: ?c2 by simp
  show ?thesis by (intro conjI st h1 h2 h3 c1 c2)
qed

text \<open>
  C6, as the code has it. The claim says that a shared acquisition that finds the lock
  idle always succeeds at once. The predicate admits a task that owns nothing only when
  \<open>waiting\<close> is zero, also when \<open>state\<close> is zero: after the last reader released
  while a writer was parked, the lock is idle with \<open>waiting = 1\<close> until the writer
  resumes, and a shared acquisition then parks.
\<close>

theorem acquire_shared_from_idle_counterexample:
  "run [Call 0 ReaderLock Acquire, Call 1 WriterLock Acquire, Call 0 ReaderLock Release]
       RWLock_init =
     Some \<lparr>core = \<lparr>state = 0, waiting = 1, owning = []\<rparr>,
           waiters = [\<lparr>wtask = 1, whandle = WriterLock, notified = True\<rparr>],
           reader_locked = False, writer_locked = False\<rparr>
   \<and> step (Call 2 ReaderLock Acquire)
       \<lparr>core = \<lparr>state = 0, waiting = 1, owning = []\<rparr>,
         waiters = [\<lparr>wtask = 1, whandle = WriterLock, notified = True\<rparr>],
         reader_locked = False, writer_locked = False\<rparr> =
     Some (Parked,
       \<lparr>core = \<lparr>state = 0, waiting = 1, owning = []\<rparr>,
         waiters = [\<lparr>wtask = 1, whandle = WriterLock, notified = True\<rparr>,
                    \<lparr>wtask = 2, whandle = ReaderLock, notified = False\<rparr>],
         reader_locked = False, writer_locked = False\<rparr>)"
  by (simp add: run_defs)

text \<open>
  C6, amended. In a reachable state with \<open>state = 0\<close>, the shared acquisition of a
  task returns at once exactly when \<open>waiting\<close> is zero, and the lock is then in shared
  mode with count one and the caller as its only owner; when \<open>waiting\<close> is not zero the
  call parks and the core is unchanged.
\<close>

theorem acquire_shared_from_idle:
  assumes "run evs RWLock_init = Some s" and "state (core s) = 0" and "\<not> is_waiting me s"
  shows "step (Call me ReaderLock Acquire) s =
     Some (if waiting (core s) = 0
           then (Returned, set_locked ReaderLock True
                   (s\<lparr>core := (core s)\<lparr>state := 1, owning := [me]\<rparr>\<rparr>))
           else (Parked, s\<lparr>waiters := waiters s @
                   [\<lparr>wtask = me, whandle = ReaderLock, notified = False\<rparr>]\<rparr>))"
proof -
  from reachable_inv [OF assms(1)] assms(2) have "owning (core s) = []"
    by (simp add: lock_inv_def core_inv_def)
  with assms(2,3) show ?thesis
    by (simp add: finish_acquire_call acquire_read_cases)
qed

theorem acquire_shared_from_idle_witness:
  "run [] RWLock_init = Some RWLock_init
   \<and> state (core RWLock_init) = 0 \<and> \<not> is_waiting 2 RWLock_init
   \<and> step (Call 2 ReaderLock Acquire) RWLock_init =
       Some (Returned, \<lparr>core = \<lparr>state = 1, waiting = 0, owning = [2]\<rparr>, waiters = [],
          reader_locked = True, writer_locked = False\<rparr>)
   \<and> run [Call 0 ReaderLock Acquire, Call 1 WriterLock Acquire, Call 0 ReaderLock Release]
       RWLock_init =
     Some \<lparr>core = \<lparr>state = 0, waiting = 1, owning = []\<rparr>,
           waiters = [\<lparr>wtask = 1, whandle = WriterLock, notified = True\<rparr>],
           reader_locked = False, writer_locked = False\<rparr>
   \<and> \<not> is_waiting 2 \<lparr>core = \<lparr>state = 0, waiting = 1, owning = []\<rparr>,
           waiters = [\<lparr>wtask = 1, whandle = WriterLock, notified = True\<rparr>],
           reader_locked = False, writer_locked = False\<rparr>
   \<and> step (Call 2 ReaderLock Acquire)
       \<lparr>core = \<lparr>state = 0, waiting = 1, owning = []\<rparr>,
         waiters = [\<lparr>wtask = 1, whandle = WriterLock, notified = True\<rparr>],
         reader_locked = False, writer_locked = False\<rparr> =
     Some (Parked,
       \<lparr>core = \<lparr>state = 0, waiting = 1, owning = []\<rparr>,
         waiters = [\<lparr>wtask = 1, whandle = WriterLock, notified = True\<rparr>,
                    \<lparr>wtask = 2, whandle = ReaderLock, notified = False\<rparr>],
         reader_locked = False, writer_locked = False\<rparr>)"
  (is "?r0 \<and> ?z0 \<and> ?n0 \<and> ?c0 \<and> ?r1 \<and> ?n1 \<and> ?c1")
proof -
  have r0: ?r0 by simp
  have z0: ?z0 by (simp add: run_defs)
  have n0: ?n0 by (simp add: run_defs)
  have r1: ?r1 by (simp add: run_defs)
  have n1: ?n1 by (simp add: run_defs)
  from acquire_shared_from_idle [OF r0 z0 n0] have c0: ?c0 by (simp add: run_defs)
  from acquire_shared_from_idle [OF r1 _ n1] have c1: ?c1 by simp
  show ?thesis by (intro conjI r0 z0 n0 c0 r1 n1 c1)
qed

text \<open>
  C7. When \<open>state\<close> is negative, the shared acquisition of a task that is in
  \<open>owning\<close> returns at once as one more exclusive hold: \<open>state\<close> goes down by one and
  the task is appended to \<open>owning\<close>. The shared acquisition of a task that is not in
  \<open>owning\<close> parks, and the core is unchanged.
\<close>

theorem shared_promoted_under_exclusive:
  assumes "state (core s) < 0" and "\<not> is_waiting me s"
  shows "step (Call me ReaderLock Acquire) s =
     Some (if me \<in> set (owning (core s))
           then (Returned, set_locked ReaderLock True
                   (s\<lparr>core := (core s)\<lparr>state := state (core s) - 1,
                                       owning := owning (core s) @ [me]\<rparr>\<rparr>))
           else (Parked, s\<lparr>waiters := waiters s @
                   [\<lparr>wtask = me, whandle = ReaderLock, notified = False\<rparr>]\<rparr>))"
  using assms by (simp add: finish_acquire_call acquire_read_cases)

theorem shared_promoted_under_exclusive_witness:
  "state (core \<lparr>core = \<lparr>state = - 1, waiting = 0, owning = [0]\<rparr>, waiters = [],
          reader_locked = False, writer_locked = True\<rparr>) < 0
   \<and> \<not> is_waiting 0 \<lparr>core = \<lparr>state = - 1, waiting = 0, owning = [0]\<rparr>, waiters = [],
          reader_locked = False, writer_locked = True\<rparr>
   \<and> \<not> is_waiting 2 \<lparr>core = \<lparr>state = - 1, waiting = 0, owning = [0]\<rparr>, waiters = [],
          reader_locked = False, writer_locked = True\<rparr>
   \<and> step (Call 0 ReaderLock Acquire)
       \<lparr>core = \<lparr>state = - 1, waiting = 0, owning = [0]\<rparr>, waiters = [],
          reader_locked = False, writer_locked = True\<rparr> =
     Some (Returned, \<lparr>core = \<lparr>state = - 2, waiting = 0, owning = [0, 0]\<rparr>, waiters = [],
          reader_locked = True, writer_locked = True\<rparr>)
   \<and> step (Call 2 ReaderLock Acquire)
       \<lparr>core = \<lparr>state = - 1, waiting = 0, owning = [0]\<rparr>, waiters = [],
          reader_locked = False, writer_locked = True\<rparr> =
     Some (Parked, \<lparr>core = \<lparr>state = - 1, waiting = 0, owning = [0]\<rparr>,
          waiters = [\<lparr>wtask = 2, whandle = ReaderLock, notified = False\<rparr>],
          reader_locked = False, writer_locked = True\<rparr>)"
  (is "?neg \<and> ?n0 \<and> ?n2 \<and> ?c0 \<and> ?c2")
proof -
  have neg: ?neg by simp
  have n0: ?n0 by (simp add: run_defs)
  have n2: ?n2 by (simp add: run_defs)
  from shared_promoted_under_exclusive [OF neg n0] have c0: ?c0 by (simp add: set_locked_def)
  from shared_promoted_under_exclusive [OF neg n2] have c2: ?c2 by simp
  show ?thesis by (intro conjI neg n0 n2 c0 c2)
qed

section \<open>Release, wake-up and round trip\<close>

lemma is_waiting_set_locked [simp]: "is_waiting me (set_locked h b s) = is_waiting me s"
  by (simp add: is_waiting_def)

lemma step_call_release:
  assumes "\<not> is_waiting me s"
  shows "step (Call me h Release) s =
     Some (if me \<in> set (owning (core s))
           then (Returned, set_locked h False
             (s\<lparr>core := (core s)\<lparr>owning := remove1 me (owning (core s)),
                     state := (if 0 < state (core s) then state (core s) - 1
                               else state (core s) + 1)\<rparr>,
                waiters := (if (if 0 < state (core s) then state (core s) - 1
                                else state (core s) + 1) = 0
                            then notify_all (waiters s) else waiters s)\<rparr>))
           else (Raised NotHeld, s))"
  using assms by (simp add: release_cases)

text \<open>
  C8. In a reachable state, a call of \<open>release\<close> by a task that is in \<open>owning\<close>
  returns, and \<open>state\<close> goes down by one when it was positive and up by one otherwise,
  which is one step towards zero. The call does the same to the core and to the waiters
  through either handle.
\<close>

theorem release_accounting:
  assumes "run evs RWLock_init = Some s" and "\<not> is_waiting me s"
    and "me \<in> set (owning (core s))"
  shows "(\<exists>s'. step (Call me h Release) s = Some (Returned, s') \<and>
            state (core s') = (if 0 < state (core s) then state (core s) - 1
                               else state (core s) + 1) \<and>
            \<bar>state (core s')\<bar> = \<bar>state (core s)\<bar> - 1)
       \<and> map_option (\<lambda>(out, u). (out, core u, waiters u)) (step (Call me ReaderLock Release) s) =
         map_option (\<lambda>(out, u). (out, core u, waiters u)) (step (Call me WriterLock Release) s)"
proof -
  from reachable_inv [OF assms(1)] have "\<bar>state (core s)\<bar> = int (length (owning (core s)))"
    by (simp add: lock_inv_def core_inv_def)
  moreover from assms(3) have "0 < length (owning (core s))"
    by (cases "owning (core s)") auto
  ultimately have nz: "state (core s) \<noteq> 0" by auto
  show ?thesis
    using assms(2,3) nz by (simp add: step_call_release del: step.simps)
qed


theorem release_accounting_witness:
  "run [Call 0 ReaderLock Acquire, Call 1 ReaderLock Acquire] RWLock_init =
     Some \<lparr>core = \<lparr>state = 2, waiting = 0, owning = [0, 1]\<rparr>, waiters = [],
           reader_locked = True, writer_locked = False\<rparr>
   \<and> \<not> is_waiting 1 \<lparr>core = \<lparr>state = 2, waiting = 0, owning = [0, 1]\<rparr>, waiters = [],
           reader_locked = True, writer_locked = False\<rparr>
   \<and> 1 \<in> set (owning (core \<lparr>core = \<lparr>state = 2, waiting = 0, owning = [0, 1]\<rparr>,
           waiters = [], reader_locked = True, writer_locked = False\<rparr>))
   \<and> (\<exists>s'. step (Call 1 WriterLock Release)
          \<lparr>core = \<lparr>state = 2, waiting = 0, owning = [0, 1]\<rparr>, waiters = [],
            reader_locked = True, writer_locked = False\<rparr> = Some (Returned, s') \<and>
        state (core s') = 1)
   \<and> run [Call 0 WriterLock Acquire, Call 0 ReaderLock Acquire] RWLock_init =
     Some \<lparr>core = \<lparr>state = - 2, waiting = 0, owning = [0, 0]\<rparr>, waiters = [],
           reader_locked = True, writer_locked = True\<rparr>
   \<and> \<not> is_waiting 0 \<lparr>core = \<lparr>state = - 2, waiting = 0, owning = [0, 0]\<rparr>, waiters = [],
           reader_locked = True, writer_locked = True\<rparr>
   \<and> 0 \<in> set (owning (core \<lparr>core = \<lparr>state = - 2, waiting = 0, owning = [0, 0]\<rparr>,
           waiters = [], reader_locked = True, writer_locked = True\<rparr>))
   \<and> (\<exists>s'. step (Call 0 ReaderLock Release)
          \<lparr>core = \<lparr>state = - 2, waiting = 0, owning = [0, 0]\<rparr>, waiters = [],
            reader_locked = True, writer_locked = True\<rparr> = Some (Returned, s') \<and>
        state (core s') = - 1)"
  (is "?r1 \<and> ?n1 \<and> ?m1 \<and> ?c1 \<and> ?r2 \<and> ?n2 \<and> ?m2 \<and> ?c2")
proof -
  have r1: ?r1 by (simp add: run_defs)
  have n1: ?n1 by (simp add: run_defs)
  have m1: ?m1 by simp
  have r2: ?r2 by (simp add: run_defs)
  have n2: ?n2 by (simp add: run_defs)
  have m2: ?m2 by simp
  from release_accounting [OF r1 n1 m1, of WriterLock] have c1: ?c1
    by (auto simp del: step.simps)
  from release_accounting [OF r2 n2 m2, of ReaderLock] have c2: ?c2
    by (auto simp del: step.simps)
  show ?thesis by (intro conjI r1 n1 m1 c1 r2 n2 m2 c2)
qed

text \<open>
  C9. A call of \<open>release\<close> wakes the parked tasks exactly when it succeeds and leaves
  \<open>state\<close> at zero: the tasks that were parked before the call are all still
  waiters after it, in the same order and through the same handles, and each of them is
  notified. A release that leaves \<open>state\<close> different from zero, and one that raises,
  leave the waiters as they were, so they notify nobody.
\<close>

theorem narrow_wake:
  assumes "\<not> is_waiting me s"
  shows "\<exists>out s'. step (Call me h Release) s = Some (out, s') \<and>
     (case release me (core s) of
        Inl e \<Rightarrow> out = Raised e
      | Inr (n, c') \<Rightarrow> out = Returned \<and> core s' = c' \<and> n = (state c' = 0)) \<and>
     waiters s' = (if out = Returned \<and> state (core s') = 0
                   then map (\<lambda>w. w\<lparr>notified := True\<rparr>) (waiters s)
                   else waiters s) \<and>
     map wtask (waiters s') = map wtask (waiters s) \<and>
     map whandle (waiters s') = map whandle (waiters s) \<and>
     map notified (waiters s') =
       (if out = Returned \<and> state (core s') = 0
        then replicate (length (waiters s)) True
        else map notified (waiters s))"
proof -
  let ?ws = "map (\<lambda>w. w\<lparr>notified := True\<rparr>) (waiters s)"
  have "map wtask ?ws = map wtask (waiters s)"
    and "map whandle ?ws = map whandle (waiters s)"
    and "map notified ?ws = replicate (length (waiters s)) True"
    by (simp_all add: comp_def map_replicate_const)
  with assms show ?thesis
    by (simp add: step_call_release release_cases notify_all_def del: step.simps)
qed

theorem narrow_wake_witness:
  "\<not> is_waiting 0 \<lparr>core = \<lparr>state = - 2, waiting = 1, owning = [0, 0]\<rparr>,
        waiters = [\<lparr>wtask = 1, whandle = WriterLock, notified = False\<rparr>,
                   \<lparr>wtask = 2, whandle = ReaderLock, notified = False\<rparr>],
        reader_locked = True, writer_locked = True\<rparr>
   \<and> (\<exists>out s'. step (Call 0 ReaderLock Release)
       \<lparr>core = \<lparr>state = - 2, waiting = 1, owning = [0, 0]\<rparr>,
         waiters = [\<lparr>wtask = 1, whandle = WriterLock, notified = False\<rparr>,
                    \<lparr>wtask = 2, whandle = ReaderLock, notified = False\<rparr>],
         reader_locked = True, writer_locked = True\<rparr> = Some (out, s') \<and>
       out = Returned \<and> state (core s') = - 1 \<and>
       waiters s' = [\<lparr>wtask = 1, whandle = WriterLock, notified = False\<rparr>,
                     \<lparr>wtask = 2, whandle = ReaderLock, notified = False\<rparr>])
   \<and> \<not> is_waiting 0 \<lparr>core = \<lparr>state = - 1, waiting = 1, owning = [0]\<rparr>,
         waiters = [\<lparr>wtask = 1, whandle = WriterLock, notified = False\<rparr>,
                    \<lparr>wtask = 2, whandle = ReaderLock, notified = False\<rparr>],
         reader_locked = False, writer_locked = True\<rparr>
   \<and> (\<exists>out s'. step (Call 0 WriterLock Release)
       \<lparr>core = \<lparr>state = - 1, waiting = 1, owning = [0]\<rparr>,
         waiters = [\<lparr>wtask = 1, whandle = WriterLock, notified = False\<rparr>,
                    \<lparr>wtask = 2, whandle = ReaderLock, notified = False\<rparr>],
         reader_locked = False, writer_locked = True\<rparr> = Some (out, s') \<and>
       out = Returned \<and> state (core s') = 0 \<and>
       waiters s' = [\<lparr>wtask = 1, whandle = WriterLock, notified = True\<rparr>,
                     \<lparr>wtask = 2, whandle = ReaderLock, notified = True\<rparr>])
   \<and> \<not> is_waiting 3 \<lparr>core = \<lparr>state = - 1, waiting = 1, owning = [0]\<rparr>,
         waiters = [\<lparr>wtask = 1, whandle = WriterLock, notified = False\<rparr>,
                    \<lparr>wtask = 2, whandle = ReaderLock, notified = False\<rparr>],
         reader_locked = False, writer_locked = True\<rparr>
   \<and> (\<exists>out s'. step (Call 3 WriterLock Release)
       \<lparr>core = \<lparr>state = - 1, waiting = 1, owning = [0]\<rparr>,
         waiters = [\<lparr>wtask = 1, whandle = WriterLock, notified = False\<rparr>,
                    \<lparr>wtask = 2, whandle = ReaderLock, notified = False\<rparr>],
         reader_locked = False, writer_locked = True\<rparr> = Some (out, s') \<and>
       out = Raised NotHeld \<and>
       waiters s' = [\<lparr>wtask = 1, whandle = WriterLock, notified = False\<rparr>,
                     \<lparr>wtask = 2, whandle = ReaderLock, notified = False\<rparr>])"
  (is "?n1 \<and> ?c1 \<and> ?n2 \<and> ?c2 \<and> ?n3 \<and> ?c3")
proof -
  have n1: ?n1 by (simp add: run_defs)
  have n2: ?n2 by (simp add: run_defs)
  have n3: ?n3 by (simp add: run_defs)
  from narrow_wake [OF n1, of ReaderLock] have c1: ?c1
    by (auto simp: release_cases simp del: step.simps)
  from narrow_wake [OF n2, of WriterLock] have c2: ?c2
    by (auto simp: release_cases notify_all_def simp del: step.simps)
  from narrow_wake [OF n3, of WriterLock] have c3: ?c3
    by (auto simp: release_cases simp del: step.simps)
  show ?thesis by (intro conjI n1 c1 n2 c2 n3 c3)
qed

text \<open>
  C10. When the acquisition of a task through either handle returns at once, a release
  by that task, through either handle, returns and gives back the core as it was before
  the acquisition: the same \<open>state\<close>, the same \<open>waiting\<close>, and the same owners as a
  multiset.
\<close>

theorem round_trip:
  assumes "step (Call me h Acquire) s = Some (Returned, s1)"
  shows "\<exists>s2. step (Call me h' Release) s1 = Some (Returned, s2) \<and>
     state (core s2) = state (core s) \<and> waiting (core s2) = waiting (core s) \<and>
     mset (owning (core s2)) = mset (owning (core s))"
proof -
  from assms have nw: "\<not> is_waiting me s" by (auto split: if_splits)
  define c where "c = core s"
  obtain c1 where ret: "(case h of ReaderLock \<Rightarrow> acquire_read me c
                                | WriterLock \<Rightarrow> acquire_write me c) = (Returned, c1)"
    and s1: "s1 = set_locked h True (s\<lparr>core := c1\<rparr>)"
    using assms nw unfolding c_def
    by (cases "case h of ReaderLock \<Rightarrow> acquire_read me (core s)
                       | WriterLock \<Rightarrow> acquire_write me (core s)")
       (auto simp: finish_acquire_call split: outcome.splits)
  from s1 nw have nw1: "\<not> is_waiting me s1" by (simp add: is_waiting_def)
  from s1 have core1: "core s1 = c1" by simp
  have c1: "c1 = c\<lparr>state := state c + 1, owning := owning c @ [me]\<rparr> \<and> 0 \<le> state c
          \<or> c1 = c\<lparr>state := state c - 1, owning := owning c @ [me]\<rparr> \<and> state c \<le> 0"
    using ret
    by (cases h) (auto simp: acquire_read_cases acquire_write_cases split: if_splits)
  then have "me \<in> set (owning c1)"
    and "(if 0 < state c1 then state c1 - 1 else state c1 + 1) = state c"
    and "waiting c1 = waiting c"
    and "mset (remove1 me (owning c1)) = mset (owning c)"
    by auto
  then show ?thesis
    using nw1 core1 unfolding c_def [symmetric]
    by (auto simp: step_call_release simp del: step.simps split: if_splits)
qed

theorem round_trip_witness:
  "step (Call 0 ReaderLock Acquire)
     \<lparr>core = \<lparr>state = 2, waiting = 0, owning = [0, 1]\<rparr>, waiters = [],
       reader_locked = True, writer_locked = False\<rparr> =
   Some (Returned,
     \<lparr>core = \<lparr>state = 3, waiting = 0, owning = [0, 1, 0]\<rparr>, waiters = [],
       reader_locked = True, writer_locked = False\<rparr>)
   \<and> (\<exists>s2. step (Call 0 ReaderLock Release)
        \<lparr>core = \<lparr>state = 3, waiting = 0, owning = [0, 1, 0]\<rparr>, waiters = [],
          reader_locked = True, writer_locked = False\<rparr> = Some (Returned, s2) \<and>
        state (core s2) = 2 \<and> waiting (core s2) = 0 \<and> mset (owning (core s2)) = mset [0, 1])
   \<and> step (Call 0 WriterLock Acquire) RWLock_init =
   Some (Returned,
     \<lparr>core = \<lparr>state = - 1, waiting = 0, owning = [0]\<rparr>, waiters = [],
       reader_locked = False, writer_locked = True\<rparr>)
   \<and> (\<exists>s2. step (Call 0 WriterLock Release)
        \<lparr>core = \<lparr>state = - 1, waiting = 0, owning = [0]\<rparr>, waiters = [],
          reader_locked = False, writer_locked = True\<rparr> = Some (Returned, s2) \<and>
        state (core s2) = 0 \<and> waiting (core s2) = 0 \<and> mset (owning (core s2)) = mset [])"
  (is "?a1 \<and> ?c1 \<and> ?a2 \<and> ?c2")
proof -
  have a1: ?a1 by (simp add: run_defs)
  have a2: ?a2 by (simp add: run_defs)
  from round_trip [OF a1, of ReaderLock] have c1: ?c1
    by (auto simp del: step.simps)
  from round_trip [OF a2, of WriterLock] have c2: ?c2
    by (auto simp: run_defs simp del: step.simps)
  show ?thesis by (intro conjI a1 c1 a2 c2)
qed

end
